theory Spec2Isabelle
  imports Main
begin

section \<open>BTCommunicator: the data model\<close>

text \<open>
  The class \<^verbatim>\<open>BTCommunicator\<close> of \<^verbatim>\<open>src/__init__.py\<close> as a record of its
  attributes and of the parts of its surroundings that its methods read or write.
  Exceptions are values: every method returns the session it leaves behind together with
  \<open>Inr ()\<close> (it returned) or \<open>Inl e\<close> (it raised \<open>e\<close>).
\<close>

datatype error =
    BTCommunicatorException string
  | JavaException string
  | IndexError
  | AttributeError

datatype event = OnConnected | OnDisconnected | OnCommandSent | OnResponse | OnError | OnUnknown

text \<open>
  The message table \<^verbatim>\<open>self._lang['messages']\<close> is loaded from a language file that is
  not among the sources. It is a parameter of the model: a table holding each key the
  methods look up.
\<close>

record messages =
  disconnect_error :: string
  send_error_JavaException :: string
  send_error_Unknown :: string
  receive_error_IOException :: string
  receive_error_JavaException :: string
  receive_error_Unknown :: string
  device_name_error :: string
  not_android :: string

text \<open>
  What one pass through the \<^verbatim>\<open>try\<close> body of \<^verbatim>\<open>send\<close> does
  (\<^verbatim>\<open>self.send_stream.write(...)\<close>, then \<^verbatim>\<open>flush()\<close>): it completes, it raises a
  \<^verbatim>\<open>jnius.JavaException\<close> (with its \<^verbatim>\<open>e.message\<close>), or it raises anything else (with
  the text of \<^verbatim>\<open>sys.exc_info()[0]\<close>), which the bare \<^verbatim>\<open>except\<close> takes.
\<close>

datatype write_result = Written | WriteJavaException string | WriteException string

text \<open>
  What \<^verbatim>\<open>self._recv_stream.readLine()\<close> does: it returns a line, it returns
  \<^verbatim>\<open>None\<close> (the end of the stream), or it raises; the three \<^verbatim>\<open>except\<close> clauses of
  \<^verbatim>\<open>_stream_reader\<close> are tried in the order \<^verbatim>\<open>IOException\<close>, \<^verbatim>\<open>JavaException\<close>, any.
\<close>

datatype read_result =
    Line string
  | EndOfStream
  | ReadIOException string
  | ReadJavaException string
  | ReadException string

text \<open>A Java stream object: who it is, and whether its \<^verbatim>\<open>close()\<close> completes.\<close>

datatype stream = Stream (stream_id: nat) (close_ok: bool)

text \<open>
  A bonded device as \<^verbatim>\<open>_get_socket_stream\<close> meets it. \<open>CreateFails\<close>: the call
  \<^verbatim>\<open>createRfcommSocketToServiceRecord\<close> raises, before \<^verbatim>\<open>self.socket\<close> is assigned;
  \<open>ConnectFails\<close>: obtaining the streams or \<^verbatim>\<open>self.socket.connect()\<close> raises, after it.
\<close>

datatype open_result = Opens | CreateFails string | ConnectFails string

record device =
  dev_name :: string
  dev_open :: open_result
  dev_recv :: stream
  dev_send :: stream

text \<open>
  The session. A field \<open>p_x\<close> is the attribute \<^verbatim>\<open>_x\<close> of the class. The method
  \<^verbatim>\<open>send\<close> writes to \<^verbatim>\<open>self.send_stream\<close>, while \<^verbatim>\<open>_get_socket_stream\<close> and
  \<^verbatim>\<open>disconnect\<close> use \<^verbatim>\<open>self._send_stream\<close>: these are two attributes and two fields.
  \<open>send_stream s n\<close> is what the pass through the \<^verbatim>\<open>try\<close> body of \<^verbatim>\<open>send\<close> does when
  \<open>n\<close> passes were made before it (an attribute that was never assigned is the constant
  \<open>WriteException\<close> of the \<^verbatim>\<open>AttributeError\<close>).

  The surroundings: \<open>android\<close> is \<^verbatim>\<open>hasattr(self, 'BluetoothAdapter')\<close>,
  \<open>paired_devices\<close> is the array of the bonded devices, \<open>reader_threads\<close> counts the
  threads started on \<^verbatim>\<open>_stream_reader\<close>, \<open>ping_timers\<close> counts the intervals scheduled
  on the clock for \<^verbatim>\<open>_ping\<close>, \<open>write_log\<close> holds the line of each pass through the
  \<^verbatim>\<open>try\<close> body of \<^verbatim>\<open>send\<close>, and \<open>events\<close> holds the events dispatched, oldest first.
  The delays (\<^verbatim>\<open>_resend_delay\<close>, \<^verbatim>\<open>_ping_interval\<close>) are times and are left out.
\<close>

record session =
  is_connected :: bool
  start_enclosing :: string
  end_enclosing :: string
  unknown :: string
  send_reset :: bool
  reset_command :: string
  command_buffer :: "string list"
  c_buf_length :: int
  response_buffer :: "string list"
  r_buf_length :: int
  device_name :: string
  p_is_pingning :: bool
  p_num_of_resends :: int
  p_recv_stream :: "stream option"
  p_send_stream :: "stream option"
  send_stream :: "nat \<Rightarrow> write_result"
  p_stop :: bool
  p_lang :: messages
  socket :: "device option"
  android :: bool
  paired_devices :: "device list"
  reader_threads :: nat
  ping_timers :: nat
  write_log :: "string list"
  events :: "event list"

section \<open>Events and the connection status\<close>

definition dispatch :: "session \<Rightarrow> event \<Rightarrow> session" where
  "dispatch s e = s\<lparr>events := events s @ [e]\<rparr>"

text \<open>\<^verbatim>\<open>on_is_connected\<close>: the observer of the property \<^verbatim>\<open>is_connected\<close>.\<close>

definition on_is_connected :: "session \<Rightarrow> session" where
  "on_is_connected s = (if \<not> is_connected s then dispatch s OnDisconnected else s)"

text \<open>
  The assignment \<^verbatim>\<open>self.is_connected = v\<close>. \<^verbatim>\<open>is_connected\<close> is a Kivy
  \<^verbatim>\<open>BooleanProperty\<close>: an assignment that changes the value stores it and calls the
  observer \<^verbatim>\<open>on_is_connected\<close>; an assignment of the value already held does neither.
\<close>

definition set_is_connected :: "session \<Rightarrow> bool \<Rightarrow> session" where
  "set_is_connected s v =
     (if is_connected s = v then s else on_is_connected (s\<lparr>is_connected := v\<rparr>))"

section \<open>The history buffers\<close>

text \<open>
  \<^verbatim>\<open>_add_command\<close>. \<^verbatim>\<open>list.pop()\<close> takes the last item and raises \<^verbatim>\<open>IndexError\<close> on
  an empty list; \<^verbatim>\<open>insert(0, x)\<close> puts \<open>x\<close> in front.
\<close>

definition add_command :: "session \<Rightarrow> string \<Rightarrow> session \<times> (error + unit)" where
  "add_command s command =
     (if int (length (command_buffer s)) = c_buf_length s then
        (if command_buffer s = [] then (s, Inl IndexError)
         else (s\<lparr>command_buffer := command # butlast (command_buffer s)\<rparr>, Inr ()))
      else (s\<lparr>command_buffer := command # command_buffer s\<rparr>, Inr ()))"

text \<open>
  \<^verbatim>\<open>_add_response\<close>. \<^verbatim>\<open>list.pop(0)\<close> takes the first item and raises \<^verbatim>\<open>IndexError\<close>
  on an empty list. The decorator \<^verbatim>\<open>@mainthread\<close> has the body run later on the main
  thread; the model runs it in place.
\<close>

definition add_response :: "session \<Rightarrow> string \<Rightarrow> session \<times> (error + unit)" where
  "add_response s response =
     (if response = unknown s then
        (case command_buffer s of
           [] \<Rightarrow> (s, Inl IndexError)
         | c # cs \<Rightarrow> (dispatch (s\<lparr>command_buffer := cs\<rparr>) OnUnknown, Inr ()))
      else
        (if int (length (response_buffer s)) = r_buf_length s then
           (if response_buffer s = [] then (s, Inl IndexError)
            else (s\<lparr>response_buffer := response # butlast (response_buffer s)\<rparr>, Inr ()))
         else (s\<lparr>response_buffer := response # response_buffer s\<rparr>, Inr ())))"

text \<open>Calls of \<^verbatim>\<open>_add_command\<close> (of \<^verbatim>\<open>_add_response\<close>) in a row, one per item, whatever
  each call raises being left to its caller.\<close>

fun add_command_seq :: "session \<Rightarrow> string list \<Rightarrow> session" where
  "add_command_seq s [] = s"
| "add_command_seq s (x # xs) = add_command_seq (fst (add_command s x)) xs"

fun add_response_seq :: "session \<Rightarrow> string list \<Rightarrow> session" where
  "add_response_seq s [] = s"
| "add_response_seq s (x # xs) = add_response_seq (fst (add_response s x)) xs"

section \<open>Sending\<close>

text \<open>\<^verbatim>\<open>sep.join(xs)\<close>\<close>

fun join :: "string \<Rightarrow> string list \<Rightarrow> string" where
  "join sep [] = []"
| "join sep [x] = x"
| "join sep (x # y # ys) = x @ sep @ join sep (y # ys)"

text \<open>
  The \<^verbatim>\<open>for\<close> loop of \<^verbatim>\<open>send\<close> over the values of \<^verbatim>\<open>range(1, resends)\<close>, with the
  variables \<^verbatim>\<open>error\<close> and \<^verbatim>\<open>error_message\<close>; a pass that completes leaves the loop.
\<close>

fun send_loop :: "session \<Rightarrow> string \<Rightarrow> int list \<Rightarrow> bool \<Rightarrow> string \<Rightarrow> session \<times> bool \<times> string" where
  "send_loop s line [] error error_message = (s, error, error_message)"
| "send_loop s line (i # rest) error error_message =
     (case send_stream s (length (write_log s)) of
        Written \<Rightarrow> (s\<lparr>write_log := write_log s @ [line]\<rparr>, False, error_message)
      | WriteJavaException m \<Rightarrow>
          send_loop (s\<lparr>write_log := write_log s @ [line]\<rparr>) line rest True
            (send_error_JavaException (p_lang s) @ '' '' @ m)
      | WriteException t \<Rightarrow>
          send_loop (s\<lparr>write_log := write_log s @ [line]\<rparr>) line rest True
            (send_error_Unknown (p_lang s) @ '' '' @ t))"

text \<open>The variable \<^verbatim>\<open>send_string\<close> of \<^verbatim>\<open>send\<close>.\<close>

definition send_string :: "string \<Rightarrow> string list \<Rightarrow> string" where
  "send_string command args =
     (if length args > 0 then command @ '' '' @ join '' '' args else command)"

text \<open>
  \<^verbatim>\<open>send\<close>. The line written is \<^verbatim>\<open>send_string\<close> with a newline after it, and
  \<^verbatim>\<open>range(1, resends)\<close> holds the integers from 1 to \<open>resends - 1\<close>.
\<close>

definition send :: "session \<Rightarrow> string \<Rightarrow> string list \<Rightarrow> int \<Rightarrow> session \<times> (error + unit)" where
  "send s command args tries =
     (let resends = (if tries > 0 then tries else p_num_of_resends s)
      in case send_loop s (send_string command args @ [CHR 0x0A]) [1..resends - 1] False [] of
           (s1, error, error_message) \<Rightarrow>
             if \<not> error then
               (case add_command s1 command of
                  (s2, Inl e) \<Rightarrow> (s2, Inl e)
                | (s2, Inr u) \<Rightarrow> (dispatch s2 OnCommandSent, Inr ()))
             else (set_is_connected s1 False, Inl (BTCommunicatorException error_message)))"

text \<open>
  The text \<^verbatim>\<open>error_message\<close> that the \<^verbatim>\<open>except\<close> clauses of \<^verbatim>\<open>send\<close> make of a
  failed pass.
\<close>

definition send_error :: "messages \<Rightarrow> write_result \<Rightarrow> string" where
  "send_error l r =
     (case r of
        Written \<Rightarrow> []
      | WriteJavaException m \<Rightarrow> send_error_JavaException l @ '' '' @ m
      | WriteException t \<Rightarrow> send_error_Unknown l @ '' '' @ t)"

text \<open>\<^verbatim>\<open>_ping\<close>\<close>

definition ping :: "session \<Rightarrow> session \<times> (error + unit)" where
  "ping s = send s ''PING'' [] 0"

section \<open>Reader and ping control\<close>

definition start_reader_stream :: "session \<Rightarrow> session" where
  "start_reader_stream s = s\<lparr>p_stop := False, reader_threads := Suc (reader_threads s)\<rparr>"

definition stop_ping :: "session \<Rightarrow> session" where
  "stop_ping s = s\<lparr>ping_timers := 0, p_is_pingning := False\<rparr>"

definition start_ping :: "session \<Rightarrow> session" where
  "start_ping s = s\<lparr>ping_timers := Suc (ping_timers s), p_is_pingning := True\<rparr>"

definition stop_reader_stream :: "session \<Rightarrow> session" where
  "stop_reader_stream s =
     (let s1 = (if p_is_pingning s then (stop_ping s)\<lparr>p_is_pingning := False\<rparr> else s)
      in s1\<lparr>p_stop := True\<rparr>)"

section \<open>Connecting and disconnecting\<close>

text \<open>The \<^verbatim>\<open>for\<close> loop of \<^verbatim>\<open>_get_socket_stream\<close> over the bonded devices.\<close>

fun find_device :: "session \<Rightarrow> string \<Rightarrow> device list \<Rightarrow> session \<times> (error + unit)" where
  "find_device s name [] = (s, Inr ())"
| "find_device s name (d # ds) =
     (if dev_name d = name then
        (case dev_open d of
           CreateFails m \<Rightarrow> (s, Inl (JavaException m))
         | ConnectFails m \<Rightarrow> (s\<lparr>socket := Some d\<rparr>, Inl (JavaException m))
         | Opens \<Rightarrow>
             (s\<lparr>socket := Some d,
                p_recv_stream := Some (dev_recv d),
                p_send_stream := Some (dev_send d)\<rparr>, Inr ()))
      else find_device s name ds)"

definition get_socket_stream :: "session \<Rightarrow> string \<Rightarrow> session \<times> (error + unit)" where
  "get_socket_stream s name =
     (if android s then
        (case find_device (s\<lparr>socket := None\<rparr>) name (paired_devices s) of
           (s1, Inl e) \<Rightarrow> (s1, Inl e)
         | (s1, Inr u) \<Rightarrow>
             if socket s1 \<noteq> None then (s1, Inr ())
             else (s1, Inl (BTCommunicatorException (device_name_error (p_lang s1) @ '' '' @ name))))
      else (s, Inl (BTCommunicatorException (not_android (p_lang s)))))"

definition connect :: "session \<Rightarrow> session \<times> (error + unit)" where
  "connect s = get_socket_stream s (device_name s)"

text \<open>
  \<^verbatim>\<open>stream.close()\<close> on an attribute that may hold \<^verbatim>\<open>None\<close> (where the call raises
  \<^verbatim>\<open>AttributeError\<close>): does the call complete?
\<close>

definition closes :: "stream option \<Rightarrow> bool" where
  "closes h = (case h of None \<Rightarrow> False | Some st \<Rightarrow> close_ok st)"

text \<open>
  \<^verbatim>\<open>disconnect\<close>: whatever the \<^verbatim>\<open>try\<close> body raises, the bare \<^verbatim>\<open>except\<close> raises the
  \<^verbatim>\<open>disconnect_error\<close> message instead, and the rest of the body is not run.
\<close>

definition disconnect :: "session \<Rightarrow> session \<times> (error + unit)" where
  "disconnect s =
     (let s1 = stop_reader_stream s in
      if \<not> closes (p_recv_stream s1) then
        (s1, Inl (BTCommunicatorException (disconnect_error (p_lang s1))))
      else if \<not> closes (p_send_stream s1) then
        (s1, Inl (BTCommunicatorException (disconnect_error (p_lang s1))))
      else (set_is_connected s1 False, Inr ()))"

section \<open>The reader loop\<close>

text \<open>
  \<^verbatim>\<open>s.rindex(c, start)\<close> for a one-character \<open>c\<close>: the highest index \<open>i\<close> with
  \<open>start \<le> i\<close> and \<open>s[i] = c\<close>, \<open>None\<close> where Python raises \<^verbatim>\<open>ValueError\<close>.
\<close>

definition rindex :: "string \<Rightarrow> char \<Rightarrow> nat \<Rightarrow> nat option" where
  "rindex s c start =
     (case filter (\<lambda>i. start \<le> i \<and> s ! i = c) (rev [0..<length s]) of
        [] \<Rightarrow> None
      | i # rest \<Rightarrow> Some i)"

text \<open>
  The second \<^verbatim>\<open>try\<close> block of \<^verbatim>\<open>_stream_reader\<close> (lines 301 to 306), up to the call
  of \<^verbatim>\<open>_add_response\<close>: the slice \<^verbatim>\<open>stream[start:end]\<close>, or \<open>None\<close> where a
  \<^verbatim>\<open>ValueError\<close> is caught. The two characters are written in the source; the attributes
  \<^verbatim>\<open>start_enclosing\<close> and \<^verbatim>\<open>end_enclosing\<close> are not read.
\<close>

definition decode :: "string \<Rightarrow> string option" where
  "decode stream =
     (case rindex stream CHR ''<'' 0 of
        None \<Rightarrow> None
      | Some i \<Rightarrow>
          (let start = i + 1 in
           case rindex stream CHR ''>'' start of
             None \<Rightarrow> None
           | Some end \<Rightarrow> Some (take (end - start) (drop start stream))))"

text \<open>
  The decoding in the words of the specification, to compare \<open>decode\<close> with: the
  substring strictly between the last \<^verbatim>\<open><\<close> and the nearest \<^verbatim>\<open>>\<close> that follows it.
\<close>

definition decode_spec :: "string \<Rightarrow> string option" where
  "decode_spec stream =
     (case rindex stream CHR ''<'' 0 of
        None \<Rightarrow> None
      | Some i \<Rightarrow>
          (let rest = drop (i + 1) stream in
           if CHR ''>'' \<in> set rest then Some (takeWhile (\<lambda>c. c \<noteq> CHR ''>'') rest)
           else None))"

text \<open>How a run of \<^verbatim>\<open>_stream_reader\<close> ends: it returns, or an exception leaves it.\<close>

datatype reader_end = Returned | Raised error

definition receive_error :: "messages \<Rightarrow> read_result \<Rightarrow> string" where
  "receive_error l r =
     (case r of
        ReadIOException m \<Rightarrow> receive_error_IOException l @ '' '' @ m
      | ReadJavaException m \<Rightarrow> receive_error_JavaException l @ '' '' @ m
      | ReadException t \<Rightarrow> receive_error_Unknown l @ '' '' @ t
      | _ \<Rightarrow> [])"

text \<open>The results of \<^verbatim>\<open>readLine\<close> that one of the three \<^verbatim>\<open>except\<close> clauses takes.\<close>

definition read_failed :: "read_result \<Rightarrow> bool" where
  "read_failed r =
     (case r of
        ReadIOException m \<Rightarrow> True
      | ReadJavaException m \<Rightarrow> True
      | ReadException t \<Rightarrow> True
      | _ \<Rightarrow> False)"

text \<open>
  \<^verbatim>\<open>_stream_reader\<close>: the \<^verbatim>\<open>while True\<close> loop, run for at most \<open>fuel\<close> passes against
  the results of the calls of \<^verbatim>\<open>readLine\<close> still to come; \<open>None\<close> when the passes are
  used up or \<^verbatim>\<open>readLine\<close> has nothing more to give (it blocks). A pass with the session
  neither stopped nor connected reads nothing. The call of \<^verbatim>\<open>_add_response\<close> is run in
  place, and an exception it raises ends the modelled run.
\<close>

fun stream_reader :: "nat \<Rightarrow> session \<Rightarrow> read_result list \<Rightarrow> (session \<times> reader_end) option" where
  "stream_reader 0 s rs = None"
| "stream_reader (Suc fuel) s rs =
     (if p_stop s then Some (s, Returned)
      else if is_connected s then
        (case rs of
           [] \<Rightarrow> None
         | Line stream # rs' \<Rightarrow>
             (case decode stream of
                None \<Rightarrow> stream_reader fuel s rs'
              | Some response \<Rightarrow>
                  (case add_response s response of
                     (s1, Inl e) \<Rightarrow> Some (s1, Raised e)
                   | (s1, Inr u) \<Rightarrow> stream_reader fuel s1 rs'))
         | EndOfStream # rs' \<Rightarrow> Some (s, Raised AttributeError)
         | r # rs' \<Rightarrow> Some (s, Raised (BTCommunicatorException (receive_error (p_lang s) r))))
      else stream_reader fuel s rs)"

section \<open>The operations of a session\<close>

text \<open>
  The calls that reach a session from outside the reader loop: its methods, and the
  assignment of its public property \<^verbatim>\<open>is_connected\<close> (no method assigns \<^verbatim>\<open>True\<close>).
\<close>

datatype op =
    Connect
  | Disconnect
  | StartReaderStream
  | StopReaderStream
  | StartPing
  | StopPing
  | Send string "string list" int
  | Ping
  | AddCommand string
  | AddResponse string
  | SetIsConnected bool

fun step :: "session \<Rightarrow> op \<Rightarrow> session \<times> (error + unit)" where
  "step s Connect = connect s"
| "step s Disconnect = disconnect s"
| "step s StartReaderStream = (start_reader_stream s, Inr ())"
| "step s StopReaderStream = (stop_reader_stream s, Inr ())"
| "step s StartPing = (start_ping s, Inr ())"
| "step s StopPing = (stop_ping s, Inr ())"
| "step s (Send command args tries) = send s command args tries"
| "step s Ping = ping s"
| "step s (AddCommand command) = add_command s command"
| "step s (AddResponse response) = add_response s response"
| "step s (SetIsConnected v) = (set_is_connected s v, Inr ())"

text \<open>Operations one after the other, each on the session the one before left, whether
  it returned or raised.\<close>

fun run :: "session \<Rightarrow> op list \<Rightarrow> session" where
  "run s [] = s"
| "run s (x # xs) = run (fst (step s x)) xs"

text \<open>Both histories within their capacities.\<close>

definition within_capacity :: "session \<Rightarrow> bool" where
  "within_capacity s \<longleftrightarrow>
     int (length (command_buffer s)) \<le> c_buf_length s \<and>
     int (length (response_buffer s)) \<le> r_buf_length s"

text \<open>The events that were dispatched between the session \<open>s\<close> and the later \<open>s'\<close>.\<close>

definition emitted :: "session \<Rightarrow> session \<Rightarrow> event list" where
  "emitted s s' = drop (length (events s)) (events s')"

section \<open>Sessions to run the model on\<close>

definition demo_messages :: messages where
  "demo_messages =
     \<lparr>disconnect_error = ''disconnect failed'',
      send_error_JavaException = ''send failed (Java):'',
      send_error_Unknown = ''send failed:'',
      receive_error_IOException = ''receive failed (IO):'',
      receive_error_JavaException = ''receive failed (Java):'',
      receive_error_Unknown = ''receive failed:'',
      device_name_error = ''no paired device named'',
      not_android = ''not on Android''\<rparr>"

text \<open>The values the class gives its attributes, on a platform with the given bonded devices.\<close>

definition new_session :: "device list \<Rightarrow> (nat \<Rightarrow> write_result) \<Rightarrow> session" where
  "new_session devs w =
     \<lparr>is_connected = False,
      start_enclosing = ''<'',
      end_enclosing = ''>'',
      unknown = ''UNSUPPORTED COMMAND'',
      send_reset = True,
      reset_command = ''RESET'',
      command_buffer = [],
      c_buf_length = 10,
      response_buffer = [],
      r_buf_length = 10,
      device_name = ''HC-06'',
      p_is_pingning = False,
      p_num_of_resends = 3,
      p_recv_stream = None,
      p_send_stream = None,
      send_stream = w,
      p_stop = False,
      p_lang = demo_messages,
      socket = None,
      android = True,
      paired_devices = devs,
      reader_threads = 0,
      ping_timers = 0,
      write_log = [],
      events = []\<rparr>"

definition always_fails :: "nat \<Rightarrow> write_result" where
  "always_fails n = WriteJavaException ''Broken pipe''"

definition two_commands :: session where
  "two_commands = (new_session [] always_fails)\<lparr>command_buffer := [''CMD_A'', ''CMD_B'']\<rparr>"

text \<open>A session that the application has marked connected, with room for two items in
  each history.\<close>

definition small_session :: session where
  "small_session =
     (new_session [] always_fails)\<lparr>is_connected := True, c_buf_length := 2, r_buf_length := 2\<rparr>"

text \<open>A connected session whose receiving stream cannot be closed.\<close>

definition stuck_session :: session where
  "stuck_session =
     (new_session [] always_fails)
       \<lparr>is_connected := True,
        p_recv_stream := Some (Stream 1 False),
        p_send_stream := Some (Stream 2 True)\<rparr>"

definition hc06 :: device where
  "hc06 = \<lparr>dev_name = ''HC-06'', dev_open = Opens,
           dev_recv = Stream 1 True, dev_send = Stream 2 True\<rparr>"

section \<open>Sending: the number of attempts\<close>

lemma range_three: "[1..2] = [1, 2::int]"
  by (simp add: upto.simps)

lemma send_loop_failing_twice:
  assumes "send_stream s (length (write_log s)) \<noteq> Written"
    and "send_stream s (Suc (length (write_log s))) \<noteq> Written"
  shows "send_loop s line [i, j] e msg =
           (s\<lparr>write_log := write_log s @ [line, line]\<rparr>, True,
            send_error (p_lang s) (send_stream s (Suc (length (write_log s)))))"
  using assms
  by (cases "send_stream s (length (write_log s))";
      cases "send_stream s (Suc (length (write_log s)))")
     (simp_all add: send_error_def)

text \<open>
  Claim C1. When every pass through the \<^verbatim>\<open>try\<close> body of \<^verbatim>\<open>send\<close> fails, a call
  with \<^verbatim>\<open>tries=3\<close> makes exactly two write attempts (both with the line of the command),
  raises a \<^verbatim>\<open>BTCommunicatorException\<close> whose message is made of the failure of the
  second, last attempt, and leaves the session disconnected.
\<close>

theorem send_three_tries_all_fail:
  assumes "\<forall>n. send_stream s n \<noteq> Written"
  shows "snd (send s command args 3) =
           Inl (BTCommunicatorException
                 (send_error (p_lang s) (send_stream s (Suc (length (write_log s))))))
         \<and> write_log (fst (send s command args 3)) =
             write_log s @
               [send_string command args @ [CHR 0x0A], send_string command args @ [CHR 0x0A]]
         \<and> \<not> is_connected (fst (send s command args 3))"
proof -
  have a: "send_stream s (length (write_log s)) \<noteq> Written"
    and b: "send_stream s (Suc (length (write_log s))) \<noteq> Written"
    using assms by blast+
  show ?thesis
    by (simp add: send_def range_three send_loop_failing_twice [OF a b]
        set_is_connected_def on_is_connected_def dispatch_def del: send_loop.simps)
qed

theorem send_three_tries_all_fail_witness:
  "(\<forall>n. send_stream (new_session [] always_fails) n \<noteq> Written)
   \<and> snd (send (new_session [] always_fails) ''PING'' [] 3) =
       Inl (BTCommunicatorException ''send failed (Java): Broken pipe'')
   \<and> write_log (fst (send (new_session [] always_fails) ''PING'' [] 3)) =
       [''PING'' @ [CHR 0x0A], ''PING'' @ [CHR 0x0A]]
   \<and> \<not> is_connected (fst (send (new_session [] always_fails) ''PING'' [] 3))"
proof -
  have h: "\<forall>n. send_stream (new_session [] always_fails) n \<noteq> Written"
    by (simp add: new_session_def always_fails_def)
  show ?thesis
    using h send_three_tries_all_fail [OF h, of "''PING''" "[]"]
    by (simp add: new_session_def always_fails_def send_error_def demo_messages_def
        send_string_def)
qed

lemma range_one: "[1..0] = ([]::int list)"
  by (simp add: upto.simps)

text \<open>
  Claim C10. A call of \<^verbatim>\<open>send\<close> whose retry count is 1 (\<^verbatim>\<open>tries=1\<close>, or
  \<^verbatim>\<open>tries\<close> at most 0 with \<^verbatim>\<open>_num_of_resends\<close> equal to 1) makes no write attempt and
  still succeeds, on a session whose \<^verbatim>\<open>c_buf_length\<close> is not 0: it returns, the command
  is put in front of the command history, and \<^verbatim>\<open>on_command_sent\<close> is dispatched.
\<close>

theorem send_one_try_writes_nothing:
  assumes "tries = 1 \<or> (tries \<le> 0 \<and> p_num_of_resends s = 1)"
    and "c_buf_length s \<noteq> 0"
  shows "snd (send s command args tries) = Inr ()
         \<and> write_log (fst (send s command args tries)) = write_log s
         \<and> command_buffer (fst (send s command args tries)) =
             command # (if int (length (command_buffer s)) = c_buf_length s
                        then butlast (command_buffer s) else command_buffer s)
         \<and> events (fst (send s command args tries)) = events s @ [OnCommandSent]"
proof -
  have r: "(if tries > 0 then tries else p_num_of_resends s) = 1"
    using assms(1) by auto
  have n: "int (length (command_buffer s)) = c_buf_length s \<Longrightarrow> command_buffer s \<noteq> []"
    using assms(2) by auto
  show ?thesis
    using n by (simp add: send_def r range_one add_command_def dispatch_def)
qed

theorem send_one_try_writes_nothing_witness:
  "((1::int) = 1 \<or> ((1::int) \<le> 0 \<and> p_num_of_resends (new_session [] always_fails) = 1))
   \<and> c_buf_length (new_session [] always_fails) \<noteq> 0
   \<and> snd (send (new_session [] always_fails) ''PING'' [] 1) = Inr ()
   \<and> write_log (fst (send (new_session [] always_fails) ''PING'' [] 1)) = []
   \<and> command_buffer (fst (send (new_session [] always_fails) ''PING'' [] 1)) = [''PING'']
   \<and> events (fst (send (new_session [] always_fails) ''PING'' [] 1)) = [OnCommandSent]"
proof -
  have h1: "(1::int) = 1 \<or> ((1::int) \<le> 0 \<and> p_num_of_resends (new_session [] always_fails) = 1)"
    by simp
  have h2: "c_buf_length (new_session [] always_fails) \<noteq> 0"
    by (simp add: new_session_def)
  show ?thesis
    using h1 h2 send_one_try_writes_nothing [OF h1 h2, of "''PING''" "[]"]
    by (simp add: new_session_def)
qed

section \<open>The unsupported-command response\<close>

text \<open>
  Claim C3, as amended. On a session whose command history is not empty, the response
  equal to \<^verbatim>\<open>unknown\<close> removes the entry in front, which is the most recent one, and
  dispatches \<^verbatim>\<open>on_unknown\<close> once; the older entries stay.
\<close>

theorem sentinel_removes_newest:
  assumes "command_buffer s \<noteq> []"
  shows "snd (add_response s (unknown s)) = Inr ()
         \<and> command_buffer (fst (add_response s (unknown s))) = tl (command_buffer s)
         \<and> events (fst (add_response s (unknown s))) = events s @ [OnUnknown]"
  using assms by (cases "command_buffer s") (simp_all add: add_response_def dispatch_def)

theorem sentinel_removes_newest_witness:
  "command_buffer two_commands \<noteq> []
   \<and> snd (add_response two_commands (unknown two_commands)) = Inr ()
   \<and> command_buffer (fst (add_response two_commands (unknown two_commands))) = [''CMD_B'']
   \<and> events (fst (add_response two_commands (unknown two_commands))) = [OnUnknown]"
proof -
  have h: "command_buffer two_commands \<noteq> []"
    by (simp add: two_commands_def)
  show ?thesis
    using h sentinel_removes_newest [OF h]
    by (simp add: two_commands_def new_session_def)
qed

text \<open>
  With the history \<^verbatim>\<open>["CMD_A", "CMD_B"]\<close>, most recent first, the response leaves
  \<^verbatim>\<open>["CMD_B"]\<close>: the claim as it was stated (the oldest entry goes, \<^verbatim>\<open>["CMD_A"]\<close>
  stays) does not hold.
\<close>

theorem sentinel_keeps_oldest_counterexample:
  "command_buffer (fst (add_response two_commands ''UNSUPPORTED COMMAND'')) = [''CMD_B'']
   \<and> command_buffer (fst (add_response two_commands ''UNSUPPORTED COMMAND'')) \<noteq> [''CMD_A'']"
  by (simp add: add_response_def two_commands_def new_session_def dispatch_def)

text \<open>
  Claim C9. On a session whose command history is empty, the response equal to
  \<^verbatim>\<open>unknown\<close> raises \<^verbatim>\<open>IndexError\<close> from \<^verbatim>\<open>_add_response\<close> without dispatching
  \<^verbatim>\<open>on_unknown\<close>, and nothing on the way from the reader loop catches it.
\<close>

theorem sentinel_on_empty_history_raises:
  "add_response (new_session [] always_fails) ''UNSUPPORTED COMMAND'' =
     (new_session [] always_fails, Inl IndexError)
   \<and> stream_reader 5 ((new_session [] always_fails)\<lparr>is_connected := True\<rparr>)
        [Line ''<UNSUPPORTED COMMAND>''] =
     Some ((new_session [] always_fails)\<lparr>is_connected := True\<rparr>, Raised IndexError)"
proof -
  have d: "decode ''<UNSUPPORTED COMMAND>'' = Some ''UNSUPPORTED COMMAND''"
    by code_simp
  show ?thesis
    by (simp add: d add_response_def new_session_def numeral_eq_Suc)
qed

section \<open>Connecting\<close>

lemma send_loop_keeps:
  "is_connected (fst (send_loop s line idx e m)) = is_connected s
   \<and> events (fst (send_loop s line idx e m)) = events s
   \<and> command_buffer (fst (send_loop s line idx e m)) = command_buffer s
   \<and> c_buf_length (fst (send_loop s line idx e m)) = c_buf_length s
   \<and> response_buffer (fst (send_loop s line idx e m)) = response_buffer s
   \<and> r_buf_length (fst (send_loop s line idx e m)) = r_buf_length s"
  by (induction idx arbitrary: s e m) (simp_all split: write_result.splits)

lemma find_device_keeps:
  "is_connected (fst (find_device s name ds)) = is_connected s
   \<and> events (fst (find_device s name ds)) = events s
   \<and> command_buffer (fst (find_device s name ds)) = command_buffer s
   \<and> c_buf_length (fst (find_device s name ds)) = c_buf_length s
   \<and> response_buffer (fst (find_device s name ds)) = response_buffer s
   \<and> r_buf_length (fst (find_device s name ds)) = r_buf_length s
   \<and> write_log (fst (find_device s name ds)) = write_log s
   \<and> reader_threads (fst (find_device s name ds)) = reader_threads s"
  by (induction ds) (simp_all split: open_result.splits)

lemma connect_keeps:
  "is_connected (fst (connect s)) = is_connected s
   \<and> events (fst (connect s)) = events s
   \<and> command_buffer (fst (connect s)) = command_buffer s
   \<and> c_buf_length (fst (connect s)) = c_buf_length s
   \<and> response_buffer (fst (connect s)) = response_buffer s
   \<and> r_buf_length (fst (connect s)) = r_buf_length s
   \<and> write_log (fst (connect s)) = write_log s
   \<and> reader_threads (fst (connect s)) = reader_threads s"
proof -
  obtain s1 r where f: "find_device (s\<lparr>socket := None\<rparr>) (device_name s) (paired_devices s) = (s1, r)"
    by (cases "find_device (s\<lparr>socket := None\<rparr>) (device_name s) (paired_devices s)")
  have k: "is_connected s1 = is_connected s" "events s1 = events s"
    "command_buffer s1 = command_buffer s" "c_buf_length s1 = c_buf_length s"
    "response_buffer s1 = response_buffer s" "r_buf_length s1 = r_buf_length s"
    "write_log s1 = write_log s" "reader_threads s1 = reader_threads s"
    using find_device_keeps [of "s\<lparr>socket := None\<rparr>" "device_name s" "paired_devices s"] f
    by simp_all
  show ?thesis
    by (cases r) (simp_all add: connect_def get_socket_stream_def f k)
qed

lemma find_device_no_match:
  "name \<notin> dev_name ` set ds \<Longrightarrow> find_device s name ds = (s, Inr ())"
  by (induction ds) auto

lemma connect_unknown_device:
  assumes "android s" and "device_name s \<notin> dev_name ` set (paired_devices s)"
  shows "snd (connect s) =
           Inl (BTCommunicatorException (device_name_error (p_lang s) @ '' '' @ device_name s))"
  using assms
  by (simp add: connect_def get_socket_stream_def
      find_device_no_match [of "device_name s" "paired_devices s"])

lemma connect_not_android:
  "\<not> android s \<Longrightarrow> connect s = (s, Inl (BTCommunicatorException (not_android (p_lang s))))"
  by (simp add: connect_def get_socket_stream_def)

text \<open>
  Claim C4. With the device \<^verbatim>\<open>HC-06\<close> bonded and its socket opening, \<^verbatim>\<open>connect\<close>
  returns having stored the two streams and the socket, and nothing more: the session is
  still disconnected, no reader thread was started, nothing was written (no
  \<^verbatim>\<open>reset_command\<close>, though \<^verbatim>\<open>send_reset\<close> holds) and no event was dispatched.
\<close>

theorem connect_only_stores_streams:
  "connect (new_session [hc06] always_fails) =
     ((new_session [hc06] always_fails)
        \<lparr>p_recv_stream := Some (Stream 1 True), p_send_stream := Some (Stream 2 True),
         socket := Some hc06\<rparr>, Inr ())
   \<and> \<not> is_connected (fst (connect (new_session [hc06] always_fails)))
   \<and> reader_threads (fst (connect (new_session [hc06] always_fails))) = 0
   \<and> write_log (fst (connect (new_session [hc06] always_fails))) = []
   \<and> events (fst (connect (new_session [hc06] always_fails))) = []"
  by (simp add: connect_def get_socket_stream_def new_session_def hc06_def)

section \<open>The capacities of the histories\<close>

lemma set_is_connected_events:
  "events (set_is_connected s v) =
     events s @ (if is_connected s \<and> \<not> v then [OnDisconnected] else [])"
  by (simp add: set_is_connected_def on_is_connected_def dispatch_def)

lemma set_is_connected_status: "is_connected (set_is_connected s v) = v"
  by (simp add: set_is_connected_def on_is_connected_def dispatch_def)

lemma set_is_connected_buffers:
  "command_buffer (set_is_connected s v) = command_buffer s
   \<and> c_buf_length (set_is_connected s v) = c_buf_length s
   \<and> response_buffer (set_is_connected s v) = response_buffer s
   \<and> r_buf_length (set_is_connected s v) = r_buf_length s"
  by (simp add: set_is_connected_def on_is_connected_def dispatch_def)

lemma add_command_capacity:
  "within_capacity s \<Longrightarrow> within_capacity (fst (add_command s c))"
  by (auto simp: within_capacity_def add_command_def)

lemma add_response_capacity:
  "within_capacity s \<Longrightarrow> within_capacity (fst (add_response s r))"
  by (auto simp: within_capacity_def add_response_def dispatch_def split: list.splits)

lemma send_capacity:
  assumes "within_capacity s"
  shows "within_capacity (fst (send s c a t))"
proof -
  define r where "r = (if t > 0 then t else p_num_of_resends s)"
  obtain s1 e m where L: "send_loop s (send_string c a @ [CHR 0x0A]) [1..r - 1] False [] = (s1, e, m)"
    by (metis prod_cases3)
  have k: "command_buffer s1 = command_buffer s" "c_buf_length s1 = c_buf_length s"
    "response_buffer s1 = response_buffer s" "r_buf_length s1 = r_buf_length s"
    using send_loop_keeps [of s "send_string c a @ [CHR 0x0A]" "[1..r - 1]" False "[]"] L
    by simp_all
  have w1: "within_capacity s1"
    using assms by (simp add: within_capacity_def k)
  have w2: "within_capacity (set_is_connected s1 False)"
    using w1 by (simp add: within_capacity_def set_is_connected_buffers)
  obtain s2 u where A: "add_command s1 c = (s2, u)"
    by (cases "add_command s1 c")
  have w3: "within_capacity s2"
    using add_command_capacity [OF w1, of c] A by simp
  have w4: "within_capacity (dispatch s2 OnCommandSent)"
    using w3 by (simp add: within_capacity_def dispatch_def)
  have "fst (send s c a t) =
          (if \<not> e then (case u of Inl x \<Rightarrow> s2 | Inr y \<Rightarrow> dispatch s2 OnCommandSent)
           else set_is_connected s1 False)"
    using L A by (simp add: send_def r_def split: sum.splits)
  then show ?thesis
    using w2 w3 w4 by (simp split: sum.splits)
qed

lemma disconnect_capacity:
  "within_capacity s \<Longrightarrow> within_capacity (fst (disconnect s))"
  by (simp add: within_capacity_def disconnect_def stop_reader_stream_def stop_ping_def
      set_is_connected_buffers Let_def)

lemma step_capacity:
  "within_capacity s \<Longrightarrow> within_capacity (fst (step s op))"
proof (cases op)
  case Connect
  assume "within_capacity s"
  then show ?thesis using Connect connect_keeps [of s] by (simp add: within_capacity_def)
next
  case Disconnect
  assume "within_capacity s"
  then show ?thesis using Disconnect disconnect_capacity by simp
next
  case (Send c a t)
  assume "within_capacity s"
  then show ?thesis using Send send_capacity by simp
next
  case Ping
  assume "within_capacity s"
  then show ?thesis using Ping send_capacity by (simp add: ping_def)
next
  case (AddCommand c)
  assume "within_capacity s"
  then show ?thesis using AddCommand add_command_capacity by simp
next
  case (AddResponse r)
  assume "within_capacity s"
  then show ?thesis using AddResponse add_response_capacity by simp
next
  case (SetIsConnected v)
  assume "within_capacity s"
  then show ?thesis using SetIsConnected by (simp add: within_capacity_def set_is_connected_buffers)
qed (simp_all add: within_capacity_def start_reader_stream_def stop_reader_stream_def
      start_ping_def stop_ping_def)

lemma stream_reader_capacity:
  "within_capacity s \<Longrightarrow> stream_reader fuel s rs = Some (s', e) \<Longrightarrow> within_capacity s'"
proof (induction fuel arbitrary: s rs)
  case 0
  then show ?case by simp
next
  case (Suc fuel)
  show ?case
  proof (cases "p_stop s")
    case True
    then show ?thesis using Suc.prems by simp
  next
    case False
    note ns = this
    show ?thesis
    proof (cases "is_connected s")
      case False
      then show ?thesis using Suc ns by simp
    next
      case True
      show ?thesis
      proof (cases rs)
        case Nil
        then show ?thesis using Suc.prems ns True by simp
      next
        case (Cons r rs')
        show ?thesis
        proof (cases r)
          case (Line l)
          show ?thesis
          proof (cases "decode l")
            case None
            then show ?thesis using Suc ns True Cons Line by simp
          next
            case (Some p)
            obtain s1 u where A: "add_response s p = (s1, u)"
              by (cases "add_response s p")
            have w: "within_capacity s1"
              using add_response_capacity [OF Suc.prems(1), of p] A by simp
            show ?thesis
            proof (cases u)
              case (Inl x)
              then show ?thesis using Suc.prems ns True Cons Line Some A w by simp
            next
              case (Inr y)
              then have "stream_reader fuel s1 rs' = Some (s', e)"
                using Suc.prems ns True Cons Line Some A by simp
              then show ?thesis using Suc.IH w by blast
            qed
          qed
        qed (use Suc.prems ns True Cons in simp_all)
      qed
    qed
  qed
qed

lemma take_append_take: "take n (xs @ take n ys) = take n (xs @ ys)"
  by (simp add: min_def)

lemma add_command_take:
  assumes "int (length (command_buffer s)) \<le> c_buf_length s"
  shows "command_buffer (fst (add_command s x)) =
           take (nat (c_buf_length s)) (x # command_buffer s)"
proof (cases "int (length (command_buffer s)) = c_buf_length s")
  case True
  then have n: "nat (c_buf_length s) = length (command_buffer s)" by simp
  note full = True
  show ?thesis
  proof (cases "command_buffer s = []")
    case True
    then show ?thesis using full by (simp add: add_command_def)
  next
    case False
    then obtain k where k: "length (command_buffer s) = Suc k"
      by (cases "command_buffer s") auto
    show ?thesis
      using full False n k by (simp add: add_command_def butlast_conv_take)
  qed
next
  case False
  then have "length (x # command_buffer s) \<le> nat (c_buf_length s)"
    using assms by simp
  then show ?thesis using False by (simp add: add_command_def del: length_Cons)
qed

lemma add_command_c_buf_length: "c_buf_length (fst (add_command s x)) = c_buf_length s"
  by (simp add: add_command_def)

lemma add_command_seq_take:
  "int (length (command_buffer s)) \<le> c_buf_length s \<Longrightarrow>
   command_buffer (add_command_seq s xs) =
     take (nat (c_buf_length s)) (rev xs @ command_buffer s)"
proof (induction xs arbitrary: s)
  case Nil
  then show ?case by simp
next
  case (Cons x xs)
  let ?s1 = "fst (add_command s x)"
  have b: "command_buffer ?s1 = take (nat (c_buf_length s)) (x # command_buffer s)"
    using add_command_take [OF Cons.prems] .
  have c: "c_buf_length ?s1 = c_buf_length s"
    by (rule add_command_c_buf_length)
  have le: "int (length (command_buffer ?s1)) \<le> c_buf_length ?s1"
    using Cons.prems by (simp add: b c)
  have "command_buffer (add_command_seq ?s1 xs) =
          take (nat (c_buf_length s)) (rev xs @ take (nat (c_buf_length s)) (x # command_buffer s))"
    using Cons.IH [OF le] by (simp add: b c)
  then show ?case
    by (simp add: take_append_take del: take_Suc_Cons take_append)
qed

lemma add_response_take:
  assumes "int (length (response_buffer s)) \<le> r_buf_length s" and "x \<noteq> unknown s"
  shows "response_buffer (fst (add_response s x)) =
           take (nat (r_buf_length s)) (x # response_buffer s)"
proof (cases "int (length (response_buffer s)) = r_buf_length s")
  case True
  then have n: "nat (r_buf_length s) = length (response_buffer s)" by simp
  note full = True
  show ?thesis
  proof (cases "response_buffer s = []")
    case True
    then show ?thesis using full assms(2) by (simp add: add_response_def)
  next
    case False
    then obtain k where k: "length (response_buffer s) = Suc k"
      by (cases "response_buffer s") auto
    show ?thesis
      using full False n k assms(2) by (simp add: add_response_def butlast_conv_take)
  qed
next
  case False
  then have "length (x # response_buffer s) \<le> nat (r_buf_length s)"
    using assms by simp
  then show ?thesis using False assms(2) by (simp add: add_response_def del: length_Cons)
qed

lemma add_response_settings:
  "r_buf_length (fst (add_response s x)) = r_buf_length s
   \<and> unknown (fst (add_response s x)) = unknown s"
  by (simp add: add_response_def dispatch_def split: list.splits)

lemma add_response_seq_take:
  "int (length (response_buffer s)) \<le> r_buf_length s \<Longrightarrow> unknown s \<notin> set ys \<Longrightarrow>
   response_buffer (add_response_seq s ys) =
     take (nat (r_buf_length s)) (rev ys @ response_buffer s)"
proof (induction ys arbitrary: s)
  case Nil
  then show ?case by simp
next
  case (Cons y ys)
  let ?s1 = "fst (add_response s y)"
  have ne: "y \<noteq> unknown s" using Cons.prems(2) by auto
  have b: "response_buffer ?s1 = take (nat (r_buf_length s)) (y # response_buffer s)"
    using add_response_take [OF Cons.prems(1) ne] .
  have c: "r_buf_length ?s1 = r_buf_length s" "unknown ?s1 = unknown s"
    using add_response_settings [of s y] by simp_all
  have le: "int (length (response_buffer ?s1)) \<le> r_buf_length ?s1"
    using Cons.prems(1) by (simp add: b c)
  have un: "unknown ?s1 \<notin> set ys"
    using Cons.prems(2) by (simp add: c)
  have "response_buffer (add_response_seq ?s1 ys) =
          take (nat (r_buf_length s)) (rev ys @ take (nat (r_buf_length s)) (y # response_buffer s))"
    using Cons.IH [OF le un] by (simp add: b c)
  then show ?case
    by (simp add: take_append_take del: take_Suc_Cons take_append)
qed
lemma run_capacity:
  "within_capacity s \<Longrightarrow> within_capacity (run s ops)"
  by (induction ops arbitrary: s) (simp_all add: step_capacity)

lemma small_session_reads:
  "stream_reader 2 small_session [Line ''<OK>'', ReadIOException ''reset''] =
     Some (small_session\<lparr>response_buffer := [''OK'']\<rparr>,
           Raised (BTCommunicatorException ''receive failed (IO): reset''))"
proof -
  have d: "decode ''<OK>'' = Some ''OK''"
    by code_simp
  show ?thesis
    by (simp add: numeral_2_eq_2 d add_response_def small_session_def new_session_def
        receive_error_def demo_messages_def)
qed

text \<open>
  Claim C5. On a session whose histories are within their capacities: after more calls
  of \<^verbatim>\<open>_add_command\<close> in a row than \<^verbatim>\<open>c_buf_length\<close>, the command history holds
  exactly the \<^verbatim>\<open>c_buf_length\<close> most recent commands, most recent first; the same holds
  of the response history, \<^verbatim>\<open>r_buf_length\<close> and calls of \<^verbatim>\<open>_add_response\<close> with
  responses other than \<^verbatim>\<open>unknown\<close>; and every sequence of operations, and every run
  of the reader loop, leaves both histories within their capacities.
\<close>

theorem histories_keep_most_recent:
  assumes "within_capacity s"
  shows "(c_buf_length s < int (length xs) \<longrightarrow>
            command_buffer (add_command_seq s xs) = take (nat (c_buf_length s)) (rev xs)
            \<and> int (length (command_buffer (add_command_seq s xs))) = c_buf_length s)
       \<and> (unknown s \<notin> set ys \<longrightarrow> r_buf_length s < int (length ys) \<longrightarrow>
            response_buffer (add_response_seq s ys) = take (nat (r_buf_length s)) (rev ys)
            \<and> int (length (response_buffer (add_response_seq s ys))) = r_buf_length s)
       \<and> within_capacity (run s ops)
       \<and> (\<forall>s' e. stream_reader fuel s rs = Some (s', e) \<longrightarrow> within_capacity s')"
proof -
  have c: "int (length (command_buffer s)) \<le> c_buf_length s"
    and r: "int (length (response_buffer s)) \<le> r_buf_length s"
    using assms by (simp_all add: within_capacity_def)
  have c0: "0 \<le> c_buf_length s" and r0: "0 \<le> r_buf_length s"
    using c r by linarith+
  have 1: "c_buf_length s < int (length xs) \<longrightarrow>
            command_buffer (add_command_seq s xs) = take (nat (c_buf_length s)) (rev xs)
            \<and> int (length (command_buffer (add_command_seq s xs))) = c_buf_length s"
    using c0 by (simp add: add_command_seq_take [OF c])
  have 2: "unknown s \<notin> set ys \<longrightarrow> r_buf_length s < int (length ys) \<longrightarrow>
            response_buffer (add_response_seq s ys) = take (nat (r_buf_length s)) (rev ys)
            \<and> int (length (response_buffer (add_response_seq s ys))) = r_buf_length s"
    using r0 by (simp add: add_response_seq_take [OF r])
  have 3: "within_capacity (run s ops)"
    using assms by (rule run_capacity)
  have 4: "\<forall>s' e. stream_reader fuel s rs = Some (s', e) \<longrightarrow> within_capacity s'"
    using assms stream_reader_capacity by blast
  show ?thesis using 1 2 3 4 by blast
qed

theorem histories_keep_most_recent_witness:
  "within_capacity small_session
   \<and> c_buf_length small_session < int (length [''A'', ''B'', ''C''])
   \<and> command_buffer (add_command_seq small_session [''A'', ''B'', ''C'']) = [''C'', ''B'']
   \<and> unknown small_session \<notin> set [''1'', ''2'', ''3'']
   \<and> response_buffer (add_response_seq small_session [''1'', ''2'', ''3'']) = [''3'', ''2'']
   \<and> within_capacity
        (run small_session [Send ''PING'' [] 1, AddResponse ''OK'', Send ''PING'' [] 3, Disconnect])
   \<and> stream_reader 2 small_session [Line ''<OK>'', ReadIOException ''reset''] \<noteq> None
   \<and> within_capacity
        (fst (the (stream_reader 2 small_session [Line ''<OK>'', ReadIOException ''reset''])))"
proof -
  have h: "within_capacity small_session"
    by (simp add: within_capacity_def small_session_def new_session_def)
  have r: "stream_reader 2 small_session [Line ''<OK>'', ReadIOException ''reset''] =
             Some (small_session\<lparr>response_buffer := [''OK'']\<rparr>,
                   Raised (BTCommunicatorException ''receive failed (IO): reset''))"
    by (rule small_session_reads)
  show ?thesis
    using h r histories_keep_most_recent [OF h, of "[''A'', ''B'', ''C'']" "[''1'', ''2'', ''3'']"
        "[Send ''PING'' [] 1, AddResponse ''OK'', Send ''PING'' [] 3, Disconnect]" 2
        "[Line ''<OK>'', ReadIOException ''reset'']"]
    by (simp add: small_session_def new_session_def)
qed

section \<open>The notification of a lost connection\<close>

lemma emitted_append: "events s' = events s @ es \<Longrightarrow> emitted s s' = es"
  by (simp add: emitted_def)

lemma set_is_connected_once:
  "events (set_is_connected s v) = events s @ emitted s (set_is_connected s v)
   \<and> count_list (emitted s (set_is_connected s v)) OnDisconnected =
       (if is_connected s \<and> \<not> is_connected (set_is_connected s v) then 1 else 0)"
  by (simp add: emitted_append [OF set_is_connected_events] set_is_connected_events
      set_is_connected_status)

lemma add_command_quiet:
  "is_connected (fst (add_command s c)) = is_connected s
   \<and> events (fst (add_command s c)) = events s"
  by (simp add: add_command_def)

lemma add_response_quiet:
  "is_connected (fst (add_response s r)) = is_connected s
   \<and> events (fst (add_response s r)) =
       events s @ (if r = unknown s \<and> command_buffer s \<noteq> [] then [OnUnknown] else [])"
  by (simp add: add_response_def dispatch_def split: list.splits)

lemma add_response_once:
  "events (fst (add_response s r)) = events s @ emitted s (fst (add_response s r))
   \<and> count_list (emitted s (fst (add_response s r))) OnDisconnected =
       (if is_connected s \<and> \<not> is_connected (fst (add_response s r)) then 1 else 0)"
proof -
  have e: "events (fst (add_response s r)) =
       events s @ (if r = unknown s \<and> command_buffer s \<noteq> [] then [OnUnknown] else [])"
    using add_response_quiet by blast
  show ?thesis
    by (simp add: emitted_append [OF e] e add_response_quiet)
qed

lemma send_once:
  "events (fst (send s c a t)) = events s @ emitted s (fst (send s c a t))
   \<and> count_list (emitted s (fst (send s c a t))) OnDisconnected =
       (if is_connected s \<and> \<not> is_connected (fst (send s c a t)) then 1 else 0)"
proof -
  define r where "r = (if t > 0 then t else p_num_of_resends s)"
  obtain s1 e m where L: "send_loop s (send_string c a @ [CHR 0x0A]) [1..r - 1] False [] = (s1, e, m)"
    by (metis prod_cases3)
  have k: "is_connected s1 = is_connected s" "events s1 = events s"
    using send_loop_keeps [of s "send_string c a @ [CHR 0x0A]" "[1..r - 1]" False "[]"] L
    by simp_all
  obtain s2 u where A: "add_command s1 c = (s2, u)"
    by (cases "add_command s1 c")
  have k2: "is_connected s2 = is_connected s" "events s2 = events s"
    using add_command_quiet [of s1 c] A k by simp_all
  have f: "fst (send s c a t) =
          (if \<not> e then (case u of Inl x \<Rightarrow> s2 | Inr y \<Rightarrow> dispatch s2 OnCommandSent)
           else set_is_connected s1 False)"
    using L A by (simp add: send_def r_def split: sum.splits)
  show ?thesis
  proof (cases e)
    case True
    have ev: "events (set_is_connected s1 False) =
                events s @ (if is_connected s then [OnDisconnected] else [])"
      by (simp add: set_is_connected_events k)
    show ?thesis
      using True by (simp add: f emitted_append [OF ev] ev set_is_connected_status)
  next
    case False
    show ?thesis
    proof (cases u)
      case (Inl x)
      have ev: "events s2 = events s @ []" by (simp add: k2)
      show ?thesis using False Inl by (simp add: f emitted_append [OF ev] k2)
    next
      case (Inr y)
      have ev: "events (dispatch s2 OnCommandSent) = events s @ [OnCommandSent]"
        by (simp add: dispatch_def k2)
      have ic: "is_connected (dispatch s2 OnCommandSent) = is_connected s"
        by (simp add: dispatch_def k2)
      show ?thesis using False Inr by (simp add: f emitted_append [OF ev] ev ic)
    qed
  qed
qed

lemma disconnect_once:
  "events (fst (disconnect s)) = events s @ emitted s (fst (disconnect s))
   \<and> count_list (emitted s (fst (disconnect s))) OnDisconnected =
       (if is_connected s \<and> \<not> is_connected (fst (disconnect s)) then 1 else 0)"
proof -
  let ?s1 = "stop_reader_stream s"
  have k: "is_connected ?s1 = is_connected s" "events ?s1 = events s"
    by (simp_all add: stop_reader_stream_def stop_ping_def)
  have ev0: "events ?s1 = events s @ []" by (simp add: k)
  have ev: "events (set_is_connected ?s1 False) =
              events s @ (if is_connected s then [OnDisconnected] else [])"
    by (simp add: set_is_connected_events k)
  show ?thesis
  proof (cases "closes (p_recv_stream ?s1) \<and> closes (p_send_stream ?s1)")
    case True
    then have "fst (disconnect s) = set_is_connected ?s1 False"
      by (simp add: disconnect_def Let_def)
    then show ?thesis
      by (simp add: emitted_append [OF ev] ev set_is_connected_status)
  next
    case False
    then have "fst (disconnect s) = ?s1"
      by (auto simp: disconnect_def Let_def)
    then show ?thesis
      by (simp add: emitted_append [OF ev0] k)
  qed
qed

lemma quiet_once:
  assumes "is_connected s' = is_connected s" and "events s' = events s"
  shows "events s' = events s @ emitted s s'
   \<and> count_list (emitted s s') OnDisconnected =
       (if is_connected s \<and> \<not> is_connected s' then 1 else 0)"
  using assms by (simp add: emitted_def)

lemma step_once:
  "events (fst (step s op)) = events s @ emitted s (fst (step s op))
   \<and> count_list (emitted s (fst (step s op))) OnDisconnected =
       (if is_connected s \<and> \<not> is_connected (fst (step s op)) then 1 else 0)"
proof (cases op)
  case Connect
  show ?thesis unfolding Connect step.simps
    using connect_keeps [of s] by (intro quiet_once) simp_all
next
  case Disconnect
  show ?thesis unfolding Disconnect step.simps by (rule disconnect_once)
next
  case StartReaderStream
  show ?thesis unfolding StartReaderStream step.simps fst_conv
    by (intro quiet_once) (simp_all add: start_reader_stream_def)
next
  case StopReaderStream
  show ?thesis unfolding StopReaderStream step.simps fst_conv
    by (intro quiet_once) (simp_all add: stop_reader_stream_def stop_ping_def)
next
  case StartPing
  show ?thesis unfolding StartPing step.simps fst_conv
    by (intro quiet_once) (simp_all add: start_ping_def)
next
  case StopPing
  show ?thesis unfolding StopPing step.simps fst_conv
    by (intro quiet_once) (simp_all add: stop_ping_def)
next
  case (Send c a t)
  show ?thesis unfolding Send step.simps by (rule send_once)
next
  case Ping
  show ?thesis unfolding Ping step.simps ping_def by (rule send_once)
next
  case (AddCommand c)
  show ?thesis unfolding AddCommand step.simps
    using add_command_quiet [of s c] by (intro quiet_once) simp_all
next
  case (AddResponse r)
  show ?thesis unfolding AddResponse step.simps by (rule add_response_once)
next
  case (SetIsConnected v)
  show ?thesis unfolding SetIsConnected step.simps fst_conv by (rule set_is_connected_once)
qed

lemma stream_reader_quiet:
  "stream_reader fuel s rs = Some (s', e) \<Longrightarrow>
   is_connected s' = is_connected s
   \<and> (\<exists>es. events s' = events s @ es \<and> set es \<subseteq> {OnUnknown})"
proof (induction fuel arbitrary: s rs)
  case 0
  then show ?case by simp
next
  case (Suc fuel)
  show ?case
  proof (cases "p_stop s")
    case True
    then show ?thesis using Suc.prems by simp
  next
    case False
    note ns = this
    show ?thesis
    proof (cases "is_connected s")
      case False
      then show ?thesis using Suc ns by simp
    next
      case True
      show ?thesis
      proof (cases rs)
        case Nil
        then show ?thesis using Suc.prems ns True by simp
      next
        case (Cons r rs')
        show ?thesis
        proof (cases r)
          case (Line l)
          show ?thesis
          proof (cases "decode l")
            case None
            then show ?thesis using Suc ns True Cons Line by simp
          next
            case (Some p)
            obtain s1 u where A: "add_response s p = (s1, u)"
              by (cases "add_response s p")
            have q: "is_connected s1 = is_connected s"
              "events s1 = events s @ (if p = unknown s \<and> command_buffer s \<noteq> [] then [OnUnknown] else [])"
              using add_response_quiet [of s p] A by simp_all
            show ?thesis
            proof (cases u)
              case (Inl x)
              then have "s' = s1" using Suc.prems ns True Cons Line Some A by simp
              then show ?thesis using q by auto
            next
              case (Inr y)
              then have "stream_reader fuel s1 rs' = Some (s', e)"
                using Suc.prems ns True Cons Line Some A by simp
              then have "is_connected s' = is_connected s1
                \<and> (\<exists>es. events s' = events s1 @ es \<and> set es \<subseteq> {OnUnknown})"
                by (rule Suc.IH)
              then show ?thesis using q by auto
            qed
          qed
        qed (use Suc.prems ns True Cons in simp_all)
      qed
    qed
  qed
qed

lemma stream_reader_once:
  assumes "stream_reader fuel s rs = Some (s', e)"
  shows "events s' = events s @ emitted s s'
   \<and> count_list (emitted s s') OnDisconnected =
       (if is_connected s \<and> \<not> is_connected s' then 1 else 0)"
proof -
  obtain es where es: "events s' = events s @ es" "set es \<subseteq> {OnUnknown}"
    and ic: "is_connected s' = is_connected s"
    using stream_reader_quiet [OF assms] by blast
  have "OnDisconnected \<notin> set es" using es(2) by auto
  then have "count_list es OnDisconnected = 0" by (simp add: count_list_0_iff)
  then show ?thesis by (simp add: emitted_append [OF es(1)] es(1) ic)
qed
lemma small_session_send_fails:
  "fst (send small_session ''PING'' [] 3) =
     small_session\<lparr>write_log := [''PING'' @ [CHR 0x0A], ''PING'' @ [CHR 0x0A]],
                   is_connected := False, events := [OnDisconnected]\<rparr>"
  by (simp add: send_def range_three small_session_def new_session_def always_fails_def
      send_string_def set_is_connected_def on_is_connected_def dispatch_def)

lemma small_session_send_fails_again:
  "fst (send (fst (send small_session ''PING'' [] 3)) ''PING'' [] 3) =
     small_session\<lparr>write_log := [''PING'' @ [CHR 0x0A], ''PING'' @ [CHR 0x0A],
                                   ''PING'' @ [CHR 0x0A], ''PING'' @ [CHR 0x0A]],
                   is_connected := False, events := [OnDisconnected]\<rparr>"
  by (simp add: small_session_send_fails)
     (simp add: send_def range_three small_session_def new_session_def always_fails_def
      send_string_def set_is_connected_def on_is_connected_def dispatch_def)

text \<open>
  Claim C8. Whatever the operation (a call of \<^verbatim>\<open>disconnect\<close>, a send that fails, any
  other call) and whatever the run of the reader loop, the events it dispatches hold
  \<^verbatim>\<open>on_disconnected\<close> exactly once if it took the session from connected to
  disconnected, and not at all otherwise; so an operation failing on a session that is
  already disconnected dispatches none.
\<close>

theorem on_disconnected_once_per_transition:
  "(events (fst (step s op)) = events s @ emitted s (fst (step s op))
    \<and> count_list (emitted s (fst (step s op))) OnDisconnected =
        (if is_connected s \<and> \<not> is_connected (fst (step s op)) then 1 else 0))
   \<and> (\<forall>s' e. stream_reader fuel s rs = Some (s', e) \<longrightarrow>
         events s' = events s @ emitted s s'
         \<and> count_list (emitted s s') OnDisconnected =
             (if is_connected s \<and> \<not> is_connected s' then 1 else 0))"
  using step_once [of s op] stream_reader_once [of fuel s rs] by blast

theorem on_disconnected_once_per_transition_witness:
  "is_connected small_session
   \<and> \<not> is_connected (fst (step small_session (Send ''PING'' [] 3)))
   \<and> count_list (emitted small_session (fst (step small_session (Send ''PING'' [] 3))))
        OnDisconnected = 1
   \<and> count_list
        (emitted (fst (step small_session (Send ''PING'' [] 3)))
           (fst (step (fst (step small_session (Send ''PING'' [] 3))) (Send ''PING'' [] 3))))
        OnDisconnected = 0
   \<and> stream_reader 2 small_session [Line ''<OK>'', ReadIOException ''reset''] \<noteq> None
   \<and> count_list
        (emitted small_session
           (fst (the (stream_reader 2 small_session [Line ''<OK>'', ReadIOException ''reset'']))))
        OnDisconnected = 0"
proof -
  have c: "is_connected small_session"
    by (simp add: small_session_def new_session_def)
  show ?thesis
    using c
      on_disconnected_once_per_transition [of small_session "Send ''PING'' [] 3" 2
        "[Line ''<OK>'', ReadIOException ''reset'']"]
      on_disconnected_once_per_transition [of "fst (step small_session (Send ''PING'' [] 3))"
        "Send ''PING'' [] 3" 0 "[]"]
    by (simp add: small_session_send_fails small_session_send_fails_again small_session_reads)
qed

section \<open>Disconnecting\<close>

text \<open>
  Claim C6, as amended. When both streams close, \<^verbatim>\<open>disconnect\<close> returns and leaves the
  session disconnected. When closing one of them fails, \<^verbatim>\<open>disconnect\<close> raises a
  \<^verbatim>\<open>BTCommunicatorException\<close> with the \<^verbatim>\<open>disconnect_error\<close> message, after the reader
  loop was told to stop and the ping was stopped; the status of the session is then what
  it was before the call, and no event is dispatched.
\<close>

theorem disconnect_close_failure:
  "(closes (p_recv_stream s) \<and> closes (p_send_stream s) \<longrightarrow>
      snd (disconnect s) = Inr () \<and> \<not> is_connected (fst (disconnect s)))
   \<and> (\<not> (closes (p_recv_stream s) \<and> closes (p_send_stream s)) \<longrightarrow>
      snd (disconnect s) = Inl (BTCommunicatorException (disconnect_error (p_lang s)))
      \<and> is_connected (fst (disconnect s)) = is_connected s
      \<and> events (fst (disconnect s)) = events s
      \<and> p_stop (fst (disconnect s))
      \<and> \<not> p_is_pingning (fst (disconnect s)))"
  by (auto simp: disconnect_def Let_def stop_reader_stream_def stop_ping_def
      set_is_connected_def on_is_connected_def dispatch_def)

theorem disconnect_close_failure_witness:
  "\<not> (closes (p_recv_stream stuck_session) \<and> closes (p_send_stream stuck_session))
   \<and> snd (disconnect stuck_session) = Inl (BTCommunicatorException ''disconnect failed'')
   \<and> is_connected (fst (disconnect stuck_session))
   \<and> closes (p_recv_stream (stuck_session\<lparr>p_recv_stream := Some (Stream 1 True)\<rparr>))
   \<and> closes (p_send_stream (stuck_session\<lparr>p_recv_stream := Some (Stream 1 True)\<rparr>))
   \<and> snd (disconnect (stuck_session\<lparr>p_recv_stream := Some (Stream 1 True)\<rparr>)) = Inr ()
   \<and> \<not> is_connected (fst (disconnect (stuck_session\<lparr>p_recv_stream := Some (Stream 1 True)\<rparr>)))"
proof -
  have h1: "\<not> (closes (p_recv_stream stuck_session) \<and> closes (p_send_stream stuck_session))"
    by (simp add: stuck_session_def closes_def)
  have h2: "closes (p_recv_stream (stuck_session\<lparr>p_recv_stream := Some (Stream 1 True)\<rparr>))
     \<and> closes (p_send_stream (stuck_session\<lparr>p_recv_stream := Some (Stream 1 True)\<rparr>))"
    by (simp add: stuck_session_def closes_def)
  have c: "is_connected stuck_session" "p_lang stuck_session = demo_messages"
    by (simp_all add: stuck_session_def new_session_def)
  show ?thesis
    using h1 h2 c disconnect_close_failure [of stuck_session]
      disconnect_close_failure [of "stuck_session\<lparr>p_recv_stream := Some (Stream 1 True)\<rparr>"]
    by (simp add: demo_messages_def)
qed

text \<open>
  A connected session whose receiving stream fails to close is still connected after
  \<^verbatim>\<open>disconnect\<close> has raised: the claim as it was stated (the status becomes disconnected
  despite the failure) does not hold.
\<close>

theorem disconnect_close_failure_counterexample:
  "snd (disconnect stuck_session) = Inl (BTCommunicatorException ''disconnect failed'')
   \<and> is_connected (fst (disconnect stuck_session))"
  by (simp add: disconnect_def Let_def stop_reader_stream_def stuck_session_def new_session_def
      closes_def demo_messages_def)

section \<open>A failing read\<close>

text \<open>
  Claim C7, as amended. When \<^verbatim>\<open>readLine\<close> raises in a pass of the reader loop (the
  session connected and not stopped), the loop ends there by raising a
  \<^verbatim>\<open>BTCommunicatorException\<close> whose message is made of the failure; the session is left
  as it was, so no \<^verbatim>\<open>on_error\<close> is dispatched and the status does not change.
\<close>

theorem read_failure_ends_reader:
  assumes "\<not> p_stop s" and "is_connected s" and "read_failed r"
  shows "stream_reader (Suc fuel) s (r # rs) =
           Some (s, Raised (BTCommunicatorException (receive_error (p_lang s) r)))"
  using assms by (cases r) (simp_all add: read_failed_def)

theorem read_failure_ends_reader_witness:
  "\<not> p_stop small_session \<and> is_connected small_session
   \<and> read_failed (ReadIOException ''reset'')
   \<and> stream_reader (Suc 0) small_session [ReadIOException ''reset''] =
       Some (small_session, Raised (BTCommunicatorException ''receive failed (IO): reset''))"
proof -
  have h1: "\<not> p_stop small_session" and h2: "is_connected small_session"
    by (simp_all add: small_session_def new_session_def)
  have h3: "read_failed (ReadIOException ''reset'')"
    by (simp add: read_failed_def)
  have l: "p_lang small_session = demo_messages"
    by (simp add: small_session_def new_session_def)
  show ?thesis
    using h1 h2 h3 read_failure_ends_reader [OF h1 h2 h3, of 0 "[]"]
    by (simp add: l receive_error_def demo_messages_def)
qed

text \<open>
  After a failed read on a connected session the session is still connected and no event
  was dispatched: the claim as it was stated (\<^verbatim>\<open>on_error\<close> is dispatched and the status
  is forced to disconnected) does not hold.
\<close>

theorem read_failure_counterexample:
  "stream_reader (Suc 0) small_session [ReadIOException ''reset''] =
     Some (small_session, Raised (BTCommunicatorException ''receive failed (IO): reset''))
   \<and> is_connected small_session
   \<and> events small_session = []"
  by (simp add: small_session_def new_session_def receive_error_def demo_messages_def)

section \<open>Decoding a line\<close>

lemma filter_rev_upt_Nil: "filter P (rev [0..<n]) = [] \<longleftrightarrow> (\<forall>j<n. \<not> P j)"
  by (auto simp: filter_empty_conv)

lemma filter_rev_upt_Cons:
  "filter P (rev [0..<n]) = i # rest \<Longrightarrow> i < n \<and> P i \<and> (\<forall>j. i < j \<and> j < n \<longrightarrow> \<not> P j)"
proof (induction n arbitrary: rest)
  case 0
  then show ?case by simp
next
  case (Suc n)
  show ?case
  proof (cases "P n")
    case True
    then have "i = n" using Suc.prems by simp
    then show ?thesis using True by auto
  next
    case False
    then have "filter P (rev [0..<n]) = i # rest" using Suc.prems by simp
    then have "i < n \<and> P i \<and> (\<forall>j. i < j \<and> j < n \<longrightarrow> \<not> P j)" by (rule Suc.IH)
    then show ?thesis using False by (auto simp: less_Suc_eq)
  qed
qed

lemma rindex_SomeD:
  assumes "rindex s c st = Some i"
  shows "st \<le> i \<and> i < length s \<and> s ! i = c \<and> (\<forall>j. i < j \<and> j < length s \<longrightarrow> s ! j \<noteq> c)"
proof -
  obtain rest where f: "filter (\<lambda>i. st \<le> i \<and> s ! i = c) (rev [0..<length s]) = i # rest"
    using assms by (auto simp: rindex_def split: list.splits)
  from filter_rev_upt_Cons [OF f] show ?thesis by auto
qed

lemma rindex_SomeI:
  assumes "st \<le> i" "i < length s" "s ! i = c" "\<forall>j. i < j \<and> j < length s \<longrightarrow> s ! j \<noteq> c"
  shows "rindex s c st = Some i"
proof -
  let ?P = "\<lambda>i. st \<le> i \<and> s ! i = c"
  have "filter ?P (rev [0..<length s]) \<noteq> []"
    using assms(1-3) by (auto simp: filter_empty_conv)
  then obtain k rest where f: "filter ?P (rev [0..<length s]) = k # rest"
    by (cases "filter ?P (rev [0..<length s])") auto
  from filter_rev_upt_Cons [OF f]
  have k: "k < length s" "st \<le> k" "s ! k = c" "\<forall>j. k < j \<and> j < length s \<longrightarrow> \<not> ?P j"
    by auto
  have "\<not> k < i" using k(4) assms(1-3) by auto
  moreover have "\<not> i < k" using k(1,3) assms(4) by auto
  ultimately have "k = i" by simp
  then show ?thesis using f by (simp add: rindex_def)
qed

lemma rindex_None_iff:
  "rindex s c st = None \<longleftrightarrow> (\<forall>j. st \<le> j \<and> j < length s \<longrightarrow> s ! j \<noteq> c)"
proof -
  have "rindex s c st = None \<longleftrightarrow> filter (\<lambda>i. st \<le> i \<and> s ! i = c) (rev [0..<length s]) = []"
    by (simp add: rindex_def split: list.splits)
  then show ?thesis by (auto simp: filter_empty_conv)
qed

lemma decode_SomeD:
  assumes "decode s = Some p"
  shows "\<exists>pre post. s = pre @ CHR ''<'' # p @ CHR ''>'' # post
           \<and> CHR ''<'' \<notin> set p \<and> CHR ''<'' \<notin> set post \<and> CHR ''>'' \<notin> set post"
proof -
  obtain i e where i: "rindex s CHR ''<'' 0 = Some i"
    and e: "rindex s CHR ''>'' (i + 1) = Some e"
    and p: "p = take (e - (i + 1)) (drop (i + 1) s)"
    using assms by (auto simp: decode_def Let_def split: option.splits)
  from rindex_SomeD [OF i]
  have i1: "i < length s" "s ! i = CHR ''<''"
    and i2: "\<forall>j. i < j \<and> j < length s \<longrightarrow> s ! j \<noteq> CHR ''<''" by auto
  from rindex_SomeD [OF e]
  have e1: "i + 1 \<le> e" "e < length s" "s ! e = CHR ''>''"
    and e2: "\<forall>j. e < j \<and> j < length s \<longrightarrow> s ! j \<noteq> CHR ''>''" by auto
  let ?post = "drop (Suc e) s"
  have s1: "s = take i s @ CHR ''<'' # drop (Suc i) s"
    using id_take_nth_drop [OF i1(1)] i1(2) by simp
  have le: "e - Suc i < length (drop (Suc i) s)" using e1 by simp
  have nth: "drop (Suc i) s ! (e - Suc i) = CHR ''>''" using e1 by simp
  have dd: "drop (Suc (e - Suc i)) (drop (Suc i) s) = ?post" using e1 by simp
  have s2: "drop (Suc i) s = p @ CHR ''>'' # ?post"
    using id_take_nth_drop [OF le] nth dd p by simp
  have a: "CHR ''<'' \<notin> set (drop (Suc i) s)"
  proof
    assume "CHR ''<'' \<in> set (drop (Suc i) s)"
    then obtain k where "k < length (drop (Suc i) s)" "drop (Suc i) s ! k = CHR ''<''"
      by (auto simp: in_set_conv_nth)
    then have "Suc i + k < length s" "s ! (Suc i + k) = CHR ''<''" by auto
    then show False using i2 by auto
  qed
  have b: "CHR ''>'' \<notin> set ?post"
  proof
    assume "CHR ''>'' \<in> set ?post"
    then obtain k where "k < length ?post" "?post ! k = CHR ''>''"
      by (auto simp: in_set_conv_nth)
    then have "Suc e + k < length s" "s ! (Suc e + k) = CHR ''>''" by auto
    then show False using e2 by auto
  qed
  have "s = take i s @ CHR ''<'' # p @ CHR ''>'' # ?post"
    using s1 s2 by simp
  moreover have "CHR ''<'' \<notin> set p" "CHR ''<'' \<notin> set ?post" using a s2 by auto
  ultimately show ?thesis using b by blast
qed

lemma rindex_append_last:
  assumes "c \<notin> set zs" and "st \<le> length ys"
  shows "rindex (ys @ c # zs) c st = Some (length ys)"
proof (rule rindex_SomeI)
  show "st \<le> length ys" by (rule assms(2))
  show "length ys < length (ys @ c # zs)" by simp
  show "(ys @ c # zs) ! length ys = c" by (rule nth_append_length)
  show "\<forall>j. length ys < j \<and> j < length (ys @ c # zs) \<longrightarrow> (ys @ c # zs) ! j \<noteq> c"
  proof (intro allI impI)
    fix j assume j: "length ys < j \<and> j < length (ys @ c # zs)"
    then obtain k where k: "j = Suc (length ys + k)"
      using less_imp_Suc_add by blast
    have l: "k < length zs" using j k by simp
    have "(ys @ c # zs) ! j = zs ! k"
      unfolding k by (simp only: nth_append_length_plus add_Suc_right [symmetric] nth_Cons_Suc)
    moreover have "zs ! k \<in> set zs" using l by (rule nth_mem)
    ultimately show "(ys @ c # zs) ! j \<noteq> c" using assms(1) by auto
  qed
qed

lemma decode_SomeI:
  assumes "s = pre @ CHR ''<'' # p @ CHR ''>'' # post"
    and "CHR ''<'' \<notin> set p" "CHR ''<'' \<notin> set post" "CHR ''>'' \<notin> set post"
  shows "decode s = Some p"
proof -
  have "CHR ''<'' \<notin> set (p @ CHR ''>'' # post)"
    using assms(2,3) by simp
  then have "rindex (pre @ CHR ''<'' # (p @ CHR ''>'' # post)) CHR ''<'' 0 = Some (length pre)"
    by (rule rindex_append_last) simp
  then have i: "rindex s CHR ''<'' 0 = Some (length pre)"
    using assms(1) by simp
  have "rindex ((pre @ CHR ''<'' # p) @ CHR ''>'' # post) CHR ''>'' (length pre + 1) =
          Some (length (pre @ CHR ''<'' # p))"
    using assms(4) by (rule rindex_append_last) simp
  then have e: "rindex s CHR ''>'' (length pre + 1) = Some (Suc (length pre + length p))"
    using assms(1) by simp
  have d: "drop (length pre + 1) s = p @ CHR ''>'' # post"
    using assms(1) by simp
  show ?thesis
    using i e d by (simp add: decode_def)
qed
lemma decode_None_iff:
  "decode s = None \<longleftrightarrow>
     \<not> (\<exists>pre mid post. s = pre @ CHR ''<'' # mid @ CHR ''>'' # post
           \<and> CHR ''<'' \<notin> set mid \<and> CHR ''<'' \<notin> set post)"
proof
  assume n: "decode s = None"
  show "\<not> (\<exists>pre mid post. s = pre @ CHR ''<'' # mid @ CHR ''>'' # post
           \<and> CHR ''<'' \<notin> set mid \<and> CHR ''<'' \<notin> set post)"
  proof
    assume "\<exists>pre mid post. s = pre @ CHR ''<'' # mid @ CHR ''>'' # post
           \<and> CHR ''<'' \<notin> set mid \<and> CHR ''<'' \<notin> set post"
    then obtain pre mid post where d: "s = pre @ CHR ''<'' # mid @ CHR ''>'' # post"
      "CHR ''<'' \<notin> set mid" "CHR ''<'' \<notin> set post" by blast
    have "CHR ''>'' \<in> set (mid @ CHR ''>'' # post)" by simp
    from split_list_last [OF this]
    obtain ys zs where z: "mid @ CHR ''>'' # post = ys @ CHR ''>'' # zs" "CHR ''>'' \<notin> set zs"
      by blast
    have m: "CHR ''<'' \<notin> set (mid @ CHR ''>'' # post)" using d(2,3) by simp
    have y: "CHR ''<'' \<notin> set ys" "CHR ''<'' \<notin> set zs"
      using m [unfolded z(1)] by simp_all
    have "s = pre @ CHR ''<'' # ys @ CHR ''>'' # zs"
      using d(1) [unfolded z(1)] .
    then have "decode s = Some ys" using y z(2) by (rule decode_SomeI)
    then show False using n by simp
  qed
next
  assume a: "\<not> (\<exists>pre mid post. s = pre @ CHR ''<'' # mid @ CHR ''>'' # post
           \<and> CHR ''<'' \<notin> set mid \<and> CHR ''<'' \<notin> set post)"
  show "decode s = None"
  proof (cases "decode s")
    case None
    then show ?thesis .
  next
    case (Some p)
    from decode_SomeD [OF Some] a show ?thesis by blast
  qed
qed

text \<open>
  Claim C2, as amended. \<open>decode\<close> yields the payload \<open>p\<close> exactly when the line is
  \<open>pre < p > post\<close> with no \<^verbatim>\<open><\<close> in \<open>p\<close> or \<open>post\<close> and no \<^verbatim>\<open>>\<close> in \<open>post\<close>:
  the payload is the substring strictly between the last \<^verbatim>\<open><\<close> and the last \<^verbatim>\<open>>\<close>
  after it. It yields nothing exactly when no \<^verbatim>\<open>>\<close> follows the last \<^verbatim>\<open><\<close>. The line
  \<^verbatim>\<open>noise<ignored<ACK1>trailing\<close> yields \<^verbatim>\<open>ACK1\<close>.
\<close>

theorem decode_last_start_last_end:
  "(decode s = Some p \<longleftrightarrow>
      (\<exists>pre post. s = pre @ CHR ''<'' # p @ CHR ''>'' # post
         \<and> CHR ''<'' \<notin> set p \<and> CHR ''<'' \<notin> set post \<and> CHR ''>'' \<notin> set post))
   \<and> (decode s = None \<longleftrightarrow>
      \<not> (\<exists>pre mid post. s = pre @ CHR ''<'' # mid @ CHR ''>'' # post
            \<and> CHR ''<'' \<notin> set mid \<and> CHR ''<'' \<notin> set post))
   \<and> decode ''noise<ignored<ACK1>trailing'' = Some ''ACK1''"
proof (intro conjI)
  show "decode s = Some p \<longleftrightarrow>
      (\<exists>pre post. s = pre @ CHR ''<'' # p @ CHR ''>'' # post
         \<and> CHR ''<'' \<notin> set p \<and> CHR ''<'' \<notin> set post \<and> CHR ''>'' \<notin> set post)"
  proof
    assume "decode s = Some p"
    then show "\<exists>pre post. s = pre @ CHR ''<'' # p @ CHR ''>'' # post
         \<and> CHR ''<'' \<notin> set p \<and> CHR ''<'' \<notin> set post \<and> CHR ''>'' \<notin> set post"
      by (rule decode_SomeD)
  next
    assume "\<exists>pre post. s = pre @ CHR ''<'' # p @ CHR ''>'' # post
         \<and> CHR ''<'' \<notin> set p \<and> CHR ''<'' \<notin> set post \<and> CHR ''>'' \<notin> set post"
    then obtain pre post where "s = pre @ CHR ''<'' # p @ CHR ''>'' # post"
      "CHR ''<'' \<notin> set p" "CHR ''<'' \<notin> set post" "CHR ''>'' \<notin> set post"
      by blast
    then show "decode s = Some p" by (rule decode_SomeI)
  qed
  show "decode s = None \<longleftrightarrow>
      \<not> (\<exists>pre mid post. s = pre @ CHR ''<'' # mid @ CHR ''>'' # post
            \<and> CHR ''<'' \<notin> set mid \<and> CHR ''<'' \<notin> set post)"
    by (rule decode_None_iff)
  show "decode ''noise<ignored<ACK1>trailing'' = Some ''ACK1''"
    by code_simp
qed

text \<open>
  On the line \<^verbatim>\<open><a>b>\<close> the nearest \<^verbatim>\<open>>\<close> after the last \<^verbatim>\<open><\<close> closes the payload
  \<^verbatim>\<open>a\<close>, which is what the specification's wording yields; \<open>decode\<close> yields
  \<^verbatim>\<open>a>b\<close>. The claim as it was stated does not hold.
\<close>

theorem decode_nearest_end_counterexample:
  "decode ''<a>b>'' = Some ''a>b'' \<and> decode_spec ''<a>b>'' = Some ''a''"
  by code_simp

end
